theory Spec2Isabelle
  imports Complex_Main "HOL-Library.Word"
begin

unbundle bit_operations_syntax

section \<open>Numbers and strings of the source language\<close>

text \<open>
  The gallery code computes with JavaScript numbers. A finite number is taken as a real
  number: rounding and overflow of the double format are left out of the model. The one
  division of the layout code can divide by zero, and there the source yields
  \<open>Infinity\<close>, \<open>-Infinity\<close> or \<open>NaN\<close>; these three values are kept, together
  with the way multiplication, \<open>Math.min\<close> and \<open>Math.max\<close> treat them.
\<close>

datatype jsnum = Fin real | PosInf | NegInf | NaN

text \<open>\<open>a / b\<close> for finite operands; a zero divisor is the positive zero here.\<close>

definition js_div :: "real \<Rightarrow> real \<Rightarrow> jsnum" where
  "js_div a b =
     (if b \<noteq> 0 then Fin (a / b)
      else if 0 < a then PosInf
      else if a < 0 then NegInf
      else NaN)"

fun js_mul :: "jsnum \<Rightarrow> jsnum \<Rightarrow> jsnum" where
  "js_mul NaN _ = NaN"
| "js_mul _ NaN = NaN"
| "js_mul (Fin a) (Fin b) = Fin (a * b)"
| "js_mul (Fin a) PosInf = (if 0 < a then PosInf else if a < 0 then NegInf else NaN)"
| "js_mul (Fin a) NegInf = (if 0 < a then NegInf else if a < 0 then PosInf else NaN)"
| "js_mul PosInf (Fin b) = (if 0 < b then PosInf else if b < 0 then NegInf else NaN)"
| "js_mul NegInf (Fin b) = (if 0 < b then NegInf else if b < 0 then PosInf else NaN)"
| "js_mul PosInf PosInf = PosInf"
| "js_mul PosInf NegInf = NegInf"
| "js_mul NegInf PosInf = NegInf"
| "js_mul NegInf NegInf = PosInf"

fun Math_min :: "jsnum \<Rightarrow> jsnum \<Rightarrow> jsnum" where
  "Math_min NaN _ = NaN"
| "Math_min _ NaN = NaN"
| "Math_min NegInf _ = NegInf"
| "Math_min _ NegInf = NegInf"
| "Math_min PosInf y = y"
| "Math_min x PosInf = x"
| "Math_min (Fin a) (Fin b) = Fin (min a b)"

fun Math_max :: "jsnum \<Rightarrow> jsnum \<Rightarrow> jsnum" where
  "Math_max NaN _ = NaN"
| "Math_max _ NaN = NaN"
| "Math_max PosInf _ = PosInf"
| "Math_max _ PosInf = PosInf"
| "Math_max NegInf y = y"
| "Math_max x NegInf = x"
| "Math_max (Fin a) (Fin b) = Fin (max a b)"


text \<open>A string is its sequence of 16-bit code units, which \<open>charCodeAt\<close> reads.\<close>

type_synonym jsstring = "16 word list"

definition chr_question :: "16 word" where "chr_question = 63"
definition chr_hash :: "16 word" where "chr_hash = 35"
definition chr_slash :: "16 word" where "chr_slash = 47"

text \<open>\<open>s.split(c)[0]\<close>: the part of \<open>s\<close> before the first \<open>c\<close>.\<close>

definition split_first :: "16 word \<Rightarrow> jsstring \<Rightarrow> jsstring" where
  "split_first c s = takeWhile (\<lambda>x. x \<noteq> c) s"

text \<open>\<open>s.split(c).pop()\<close>: the part of \<open>s\<close> after the last \<open>c\<close>.\<close>

definition split_pop :: "16 word \<Rightarrow> jsstring \<Rightarrow> jsstring" where
  "split_pop c s = rev (takeWhile (\<lambda>x. x \<noteq> c) (rev s))"

section \<open>The data model\<close>

record ImageItem =
  src :: jsstring
  alt :: jsstring
  category :: jsstring

text \<open>
  A justified item also carries the untyped field \<open>__globalIndex\<close>, which the gallery
  sets and \<open>computeRows\<close> copies; \<open>None\<close> is \<open>undefined\<close>.
\<close>

record JustifiedItem = ImageItem +
  aspectRatio :: real
  item_globalIndex :: "nat option"

record SizedItem =
  item :: JustifiedItem
  width :: jsnum
  height :: jsnum
  globalIndex :: "nat option"

record JustifiedRow =
  items :: "SizedItem list"
  row_height :: jsnum

section \<open>The filename seed\<close>

text \<open>
  One round of the hash: \<open>h ^= c; h = Math.imul(h, 16777619); h >>>= 0\<close>, on the
  32 bits of \<open>h\<close>.
\<close>

definition fnv_step :: "32 word \<Rightarrow> 16 word \<Rightarrow> 32 word" where
  "fnv_step h c = (h XOR ucast c) * 16777619"

definition filename_of :: "jsstring \<Rightarrow> jsstring" where
  "filename_of s =
     (let name = split_pop chr_slash (split_first chr_hash (split_first chr_question s))
      in if name = [] then s else name)"

definition getFilenameSeed :: "jsstring \<Rightarrow> real" where
  "getFilenameSeed s =
     (let h = foldl fnv_step 2166136261 (filename_of s)
      in real (unat h mod 100000) / 100000)"

section \<open>Row computation\<close>

text \<open>The variables that one call of \<open>computeRows\<close> creates and updates.\<close>

record loop_state =
  rows :: "JustifiedRow list"
  currentRow :: "JustifiedItem list"
  currentWidthAtBase :: real
  rowIndex :: nat

definition init_state :: loop_state where
  "init_state = \<lparr>rows = [], currentRow = [], currentWidthAtBase = 0, rowIndex = 0\<rparr>"

text \<open>
  The height that \<open>pushRow\<close> gives a row: \<open>first\<close> is \<open>rowItems[0]\<close>.
\<close>

definition finalHeight_of ::
  "real \<Rightarrow> real \<Rightarrow> real \<Rightarrow> JustifiedItem \<Rightarrow> JustifiedItem list \<Rightarrow> jsnum" where
  "finalHeight_of containerWidth gap baseRowHeight first rowItems =
     (let seed = getFilenameSeed (src first);
          jitter = 1 + (seed - 0.5) * 0.12;
          targetRowHeight = baseRowHeight * jitter;
          totalAspect = foldl (\<lambda>sum it. sum + aspectRatio it) 0 rowItems;
          totalGap = gap * (real (length rowItems) - 1);
          height = js_div (containerWidth - totalGap) totalAspect
      in Math_max (Fin 80) (Math_min (Fin targetRowHeight) (js_mul height (Fin 1.2))))"

definition pushRow ::
  "real \<Rightarrow> real \<Rightarrow> real \<Rightarrow> loop_state \<Rightarrow> JustifiedItem list \<Rightarrow> loop_state" where
  "pushRow containerWidth gap baseRowHeight st rowItems =
     (case rowItems of
        [] \<Rightarrow> st
      | first # _ \<Rightarrow>
          (let finalHeight = finalHeight_of containerWidth gap baseRowHeight first rowItems;
               itemsWithSizes =
                 map (\<lambda>it. \<lparr>item = it, width = js_mul (Fin (aspectRatio it)) finalHeight,
                            height = finalHeight, globalIndex = item_globalIndex it\<rparr>) rowItems
           in st\<lparr>rows := rows st @ [\<lparr>items = itemsWithSizes, row_height = finalHeight\<rparr>],
                  rowIndex := rowIndex st + 1\<rparr>))"

definition loop_body ::
  "real \<Rightarrow> real \<Rightarrow> real \<Rightarrow> loop_state \<Rightarrow> JustifiedItem \<Rightarrow> loop_state" where
  "loop_body containerWidth gap baseRowHeight st it =
     (let tentativeWidth = aspectRatio it * baseRowHeight;
          gaps = gap * real (length (currentRow st));
          st1 =
            (if length (currentRow st) > 0
                \<and> currentWidthAtBase st + tentativeWidth + gaps > containerWidth * 1.15
             then (pushRow containerWidth gap baseRowHeight st (currentRow st))
                    \<lparr>currentRow := [], currentWidthAtBase := 0\<rparr>
             else st)
      in st1\<lparr>currentRow := currentRow st1 @ [it],
              currentWidthAtBase := currentWidthAtBase st1 + tentativeWidth\<rparr>)"

definition computeRows ::
  "JustifiedItem list \<Rightarrow> real \<Rightarrow> real \<Rightarrow> real \<Rightarrow> JustifiedRow list" where
  "computeRows its containerWidth gap baseRowHeight =
     (if containerWidth \<le> 0 \<or> length its = 0 then []
      else
        (let st = foldl (loop_body containerWidth gap baseRowHeight) init_state its;
             st' = (if length (currentRow st) \<noteq> 0
                    then pushRow containerWidth gap baseRowHeight st (currentRow st)
                    else st)
         in rows st'))"

text \<open>The input items of a list of rows, in order.\<close>

definition row_items :: "JustifiedRow \<Rightarrow> JustifiedItem list" where
  "row_items r = map item (items r)"

definition items_of_rows :: "JustifiedRow list \<Rightarrow> JustifiedItem list" where
  "items_of_rows rs = concat (map row_items rs)"

section \<open>Row computation in the number format\<close>

text \<open>
  The definitions above compute with exact real numbers. The source computes with
  doubles, and where the two sides of a comparison are equal in exact arithmetic the
  rounding decides: \<open>360 * 1.15\<close> is 413.99999999999994 in doubles, below 414. So the
  same code is given once more with the arithmetic as a parameter: the four operations
  and the reading of a decimal literal.
\<close>

record arith =
  fadd :: "real \<Rightarrow> real \<Rightarrow> real"
  fsub :: "real \<Rightarrow> real \<Rightarrow> real"
  fmul :: "real \<Rightarrow> real \<Rightarrow> real"
  fdiv :: "real \<Rightarrow> real \<Rightarrow> real"
  lit :: "real \<Rightarrow> real"

definition exact_arith :: arith where
  "exact_arith = \<lparr>fadd = (+), fsub = (-), fmul = (*), fdiv = (/), lit = (\<lambda>x. x)\<rparr>"

text \<open>
  The arithmetic of doubles: every result is the nearest double, a tie going to the even
  significand. A double has 53 significant bits, and its exponent is at least -1022.
  Overflow to \<open>Infinity\<close> is left out, as above.
\<close>

definition round_half_even :: "real \<Rightarrow> int" where
  "round_half_even y =
     (let f = \<lfloor>y\<rfloor>; d = y - of_int f
      in if d < 1 / 2 then f else if 1 / 2 < d then f + 1 else if even f then f else f + 1)"

definition round_double :: "real \<Rightarrow> real" where
  "round_double x =
     (if x = 0 then 0
      else
        (let e = max \<lfloor>log 2 \<bar>x\<bar>\<rfloor> (- 1022);
             q = 2 powr (of_int e - 52)
         in of_int (round_half_even (x / q)) * q))"

definition double_arith :: arith where
  "double_arith =
     \<lparr>fadd = (\<lambda>x y. round_double (x + y)), fsub = (\<lambda>x y. round_double (x - y)),
      fmul = (\<lambda>x y. round_double (x * y)), fdiv = (\<lambda>x y. round_double (x / y)),
      lit = round_double\<rparr>"

text \<open>
  The seed, the division, the multiplication, \<open>pushRow\<close>, the loop and
  \<open>computeRows\<close>, line by line as above, with the operations of \<open>ops\<close>.
\<close>

definition getFilenameSeed_in :: "arith \<Rightarrow> jsstring \<Rightarrow> real" where
  "getFilenameSeed_in ops s =
     (let h = foldl fnv_step 2166136261 (filename_of s)
      in fdiv ops (real (unat h mod 100000)) 100000)"

definition js_div_in :: "arith \<Rightarrow> real \<Rightarrow> real \<Rightarrow> jsnum" where
  "js_div_in ops a b =
     (if b \<noteq> 0 then Fin (fdiv ops a b)
      else if 0 < a then PosInf
      else if a < 0 then NegInf
      else NaN)"

fun js_mul_in :: "arith \<Rightarrow> jsnum \<Rightarrow> jsnum \<Rightarrow> jsnum" where
  "js_mul_in ops (Fin a) (Fin b) = Fin (fmul ops a b)"
| "js_mul_in ops x y = js_mul x y"

definition finalHeight_in ::
  "arith \<Rightarrow> real \<Rightarrow> real \<Rightarrow> real \<Rightarrow> JustifiedItem \<Rightarrow> JustifiedItem list \<Rightarrow> jsnum" where
  "finalHeight_in ops containerWidth gap baseRowHeight first rowItems =
     (let seed = getFilenameSeed_in ops (src first);
          jitter = fadd ops 1 (fmul ops (fsub ops seed (lit ops 0.5)) (lit ops 0.12));
          targetRowHeight = fmul ops baseRowHeight jitter;
          totalAspect = foldl (\<lambda>sum it. fadd ops sum (aspectRatio it)) 0 rowItems;
          totalGap = fmul ops gap (real (length rowItems) - 1);
          height = js_div_in ops (fsub ops containerWidth totalGap) totalAspect
      in Math_max (Fin 80)
           (Math_min (Fin targetRowHeight) (js_mul_in ops height (Fin (lit ops 1.2)))))"

definition pushRow_in ::
  "arith \<Rightarrow> real \<Rightarrow> real \<Rightarrow> real \<Rightarrow> loop_state \<Rightarrow> JustifiedItem list \<Rightarrow> loop_state" where
  "pushRow_in ops containerWidth gap baseRowHeight st rowItems =
     (case rowItems of
        [] \<Rightarrow> st
      | first # _ \<Rightarrow>
          (let finalHeight = finalHeight_in ops containerWidth gap baseRowHeight first rowItems;
               itemsWithSizes =
                 map (\<lambda>it. \<lparr>item = it,
                            width = js_mul_in ops (Fin (aspectRatio it)) finalHeight,
                            height = finalHeight, globalIndex = item_globalIndex it\<rparr>) rowItems
           in st\<lparr>rows := rows st @ [\<lparr>items = itemsWithSizes, row_height = finalHeight\<rparr>],
                  rowIndex := rowIndex st + 1\<rparr>))"

definition loop_body_in ::
  "arith \<Rightarrow> real \<Rightarrow> real \<Rightarrow> real \<Rightarrow> loop_state \<Rightarrow> JustifiedItem \<Rightarrow> loop_state" where
  "loop_body_in ops containerWidth gap baseRowHeight st it =
     (let tentativeWidth = fmul ops (aspectRatio it) baseRowHeight;
          gaps = fmul ops gap (real (length (currentRow st)));
          st1 =
            (if length (currentRow st) > 0
                \<and> fadd ops (fadd ops (currentWidthAtBase st) tentativeWidth) gaps
                    > fmul ops containerWidth (lit ops 1.15)
             then (pushRow_in ops containerWidth gap baseRowHeight st (currentRow st))
                    \<lparr>currentRow := [], currentWidthAtBase := 0\<rparr>
             else st)
      in st1\<lparr>currentRow := currentRow st1 @ [it],
              currentWidthAtBase := fadd ops (currentWidthAtBase st1) tentativeWidth\<rparr>)"

definition computeRows_in ::
  "arith \<Rightarrow> JustifiedItem list \<Rightarrow> real \<Rightarrow> real \<Rightarrow> real \<Rightarrow> JustifiedRow list" where
  "computeRows_in ops its containerWidth gap baseRowHeight =
     (if containerWidth \<le> 0 \<or> length its = 0 then []
      else
        (let st = foldl (loop_body_in ops containerWidth gap baseRowHeight) init_state its;
             st' = (if length (currentRow st) \<noteq> 0
                    then pushRow_in ops containerWidth gap baseRowHeight st (currentRow st)
                    else st)
         in rows st'))"


section \<open>Aspect-ratio resolution\<close>

text \<open>
  What the browser reports for an image whose \<open>src\<close> was set: \<open>onload\<close> with the
  natural width and height, or \<open>onerror\<close>. A promise settles by resolving with a value
  (\<open>Inr\<close>) or by rejecting (\<open>Inl\<close>); awaiting a rejected promise throws.
\<close>

datatype image_event = OnLoad nat nat | OnError

datatype error = Rejected

definition loadImageAspect :: "image_event \<Rightarrow> error + real" where
  "loadImageAspect ev =
     (case ev of
        OnLoad naturalWidth naturalHeight \<Rightarrow>
          if naturalHeight = 0 then Inr 1
          else Inr (real naturalWidth / real naturalHeight)
      | OnError \<Rightarrow> Inr 1)"

text \<open>
  What a worker does with the ratio once the \<open>await\<close> has returned it: the tweak from
  the filename seed, the clamp, and the item with its index.
\<close>

definition enrich_item :: "ImageItem \<Rightarrow> nat \<Rightarrow> real \<Rightarrow> JustifiedItem" where
  "enrich_item it i ratio =
     (let r = getFilenameSeed (src it);
          tweak = 1 + (r - 0.5) * 0.2;
          aspectRatio = max 0.3 (min 3.5 (ratio * tweak))
      in \<lparr>src = src it, alt = alt it, category = category it,
          aspectRatio = aspectRatio, item_globalIndex = Some i\<rparr>)"

text \<open>
  A worker is an asynchronous function: it runs until its \<open>await\<close>, and goes on when the
  awaited promise has settled; no other worker runs in between. So a worker that has
  been called waits for the image of an index, or has returned, or has thrown because
  the awaited promise was rejected.
\<close>

datatype worker_pc = Awaiting nat | Returned | Thrown error

text \<open>
  The state the workers of one batch share: the next index to take and the array they
  fill, whose empty slots are \<open>None\<close>; and where each worker stands.
\<close>

record batch_state =
  nextIndex :: nat
  enriched :: "JustifiedItem option list"
  workers :: "worker_pc list"

text \<open>
  From the head of the loop to the \<open>await\<close>: the worker takes an index, and leaves the
  loop or starts to load the image of that index.
\<close>

definition loop_head :: "ImageItem list \<Rightarrow> batch_state \<Rightarrow> batch_state \<times> worker_pc" where
  "loop_head its st =
     (let i = nextIndex st;
          st1 = st\<lparr>nextIndex := i + 1\<rparr>
      in if i \<ge> length its then (st1, Returned) else (st1, Awaiting i))"

text \<open>\<open>queue.push(worker())\<close>: the call runs the new worker up to its first \<open>await\<close>.\<close>

definition spawn_worker :: "ImageItem list \<Rightarrow> batch_state \<Rightarrow> batch_state" where
  "spawn_worker its st =
     (let (st1, pc) = loop_head its st in st1\<lparr>workers := workers st1 @ [pc]\<rparr>)"

definition concurrency :: nat where
  "concurrency = 8"

definition start_batch :: "ImageItem list \<Rightarrow> batch_state" where
  "start_batch its =
     foldl (\<lambda>st c. spawn_worker its st)
       \<lparr>nextIndex = 0, enriched = replicate (length its) None, workers = []\<rparr>
       [0..<concurrency]"

text \<open>
  Worker \<open>w\<close> goes on after its \<open>await\<close>. \<open>load i\<close> is the event that the browser
  reports for the image of item \<open>i\<close>. The worker stores the item and runs from the head
  of the loop to its next \<open>await\<close>; had the promise been rejected, the \<open>await\<close> would
  throw.
\<close>

definition worker_step ::
  "(nat \<Rightarrow> image_event) \<Rightarrow> ImageItem list \<Rightarrow> batch_state \<Rightarrow> nat \<Rightarrow> batch_state" where
  "worker_step load its st w =
     (if w \<ge> length (workers st) then st
      else
        (case workers st ! w of
           Awaiting i \<Rightarrow>
             (case loadImageAspect (load i) of
                Inl err \<Rightarrow> st\<lparr>workers := (workers st)[w := Thrown err]\<rparr>
              | Inr ratio \<Rightarrow>
                  (let e = enrich_item (its ! i) i ratio;
                       (st1, pc) = loop_head its (st\<lparr>enriched := (enriched st)[i := Some e]\<rparr>)
                   in st1\<lparr>workers := (workers st1)[w := pc]\<rparr>))
         | Returned \<Rightarrow> st
         | Thrown err \<Rightarrow> st))"

text \<open>
  A schedule lists the workers in the order in which their images settle.
\<close>

definition run_schedule ::
  "(nat \<Rightarrow> image_event) \<Rightarrow> ImageItem list \<Rightarrow> nat list \<Rightarrow> batch_state \<Rightarrow> batch_state" where
  "run_schedule load its sched st = foldl (worker_step load its) st sched"

text \<open>
  \<open>Promise.all\<close> over the workers: rejected as soon as one worker has thrown, resolved
  when all have returned, pending (\<open>None\<close>) otherwise. The batch hands the array over
  when it is resolved.
\<close>

fun thrown :: "worker_pc \<Rightarrow> error option" where
  "thrown (Thrown err) = Some err"
| "thrown _ = None"

definition batch_outcome :: "batch_state \<Rightarrow> (error + JustifiedItem option list) option" where
  "batch_outcome st =
     (case List.map_filter thrown (workers st) of
        err # _ \<Rightarrow> Some (Inl err)
      | [] \<Rightarrow>
          if list_all (\<lambda>pc. pc = Returned) (workers st) then Some (Inr (enriched st))
          else None)"

section \<open>Ordered search in the row offsets\<close>

text \<open>
  \<open>(lo + hi) >>> 1\<close>: the sum is reduced to 32 bits before the shift.
\<close>

definition ushr1 :: "nat \<Rightarrow> nat" where
  "ushr1 n = (n mod 2 ^ 32) div 2"

text \<open>
  \<open>arr[i] < target\<close>: a read past the end gives \<open>undefined\<close>, which is below nothing.
\<close>

definition elem_lt :: "real list \<Rightarrow> nat \<Rightarrow> real \<Rightarrow> bool" where
  "elem_lt arr i target = (i < length arr \<and> arr ! i < target)"

partial_function (option) lowerBound_loop ::
  "real list \<Rightarrow> real \<Rightarrow> nat \<Rightarrow> nat \<Rightarrow> nat option" where
  "lowerBound_loop arr target lo hi =
     (if lo < hi then
        (let mid = ushr1 (lo + hi)
         in if elem_lt arr mid target then lowerBound_loop arr target (mid + 1) hi
            else lowerBound_loop arr target lo mid)
      else Some lo)"

definition lowerBound :: "real list \<Rightarrow> real \<Rightarrow> nat option" where
  "lowerBound arr target = lowerBound_loop arr target 0 (length arr)"

text \<open>
  The offsets that the gallery searches: \<open>out[0] = 0\<close>, and every row adds its height
  and, unless it is the last row, the gap.
\<close>

fun cumulative_loop :: "real \<Rightarrow> real list \<Rightarrow> real \<Rightarrow> real list" where
  "cumulative_loop acc [] gap = []"
| "cumulative_loop acc [h] gap = [acc + h + 0]"
| "cumulative_loop acc (h # h' # hs) gap =
     (acc + h + gap) # cumulative_loop (acc + h + gap) (h' # hs) gap"

definition cumulative :: "real list \<Rightarrow> real \<Rightarrow> real list" where
  "cumulative totalHeights gap = 0 # cumulative_loop 0 totalHeights gap"

section \<open>The thumbnail build\<close>

text \<open>
  For one image file the build reads the metadata and resizes to each target width.
  \<open>meta.width\<close> is a pixel count or \<open>undefined\<close>.
\<close>

definition origWidth_of :: "nat option \<Rightarrow> nat" where
  "origWidth_of meta_width =
     (case meta_width of None \<Rightarrow> 2000 | Some n \<Rightarrow> if n = 0 then 2000 else n)"

definition widths :: "nat list" where
  "widths = [400, 800, 1200]"

definition qualityFor :: "nat \<Rightarrow> nat" where
  "qualityFor w = (if w \<le> 400 then 40 else if w \<le> 800 then 38 else 35)"

text \<open>One pass of the loop over \<open>widths\<close>: the options handed to the image library.\<close>

record variant =
  target_w :: nat
  resize_width :: nat
  withoutEnlargement :: bool
  webp_quality :: nat
  webp_effort :: nat

definition build_variants :: "nat option \<Rightarrow> variant list" where
  "build_variants meta_width =
     (let origWidth = origWidth_of meta_width
      in map (\<lambda>w. let target = min origWidth w
                   in \<lparr>target_w = w, resize_width = target, withoutEnlargement = True,
                       webp_quality = qualityFor w, webp_effort = 5\<rparr>) widths)"

section \<open>Notions used in the statements\<close>

text \<open>
  What the loop has seen so far is the items of the closed rows followed by the items of
  the open row.
\<close>

definition flat_state :: "loop_state \<Rightarrow> JustifiedItem list" where
  "flat_state st = items_of_rows (rows st) @ currentRow st"


text \<open>
  The running width of a row at the base height, summed as the loop sums it; and the
  estimate once \<open>it\<close> has joined \<open>row\<close>: the running width, the width of \<open>it\<close>, and
  one gap per item already in the row.
\<close>

definition running_width :: "arith \<Rightarrow> real \<Rightarrow> JustifiedItem list \<Rightarrow> real" where
  "running_width ops baseRowHeight row =
     foldl (\<lambda>sum i. fadd ops sum (fmul ops (aspectRatio i) baseRowHeight)) 0 row"

definition estimate_in :: "arith \<Rightarrow> real \<Rightarrow> real \<Rightarrow> JustifiedItem list \<Rightarrow> JustifiedItem \<Rightarrow> real" where
  "estimate_in ops baseRowHeight gap row it =
     fadd ops (fadd ops (running_width ops baseRowHeight row) (fmul ops (aspectRatio it) baseRowHeight))
       (fmul ops gap (real (length row)))"

text \<open>
  The rows that the closing rule describes: walk the items; close the current row and
  start a new one with the next item exactly when the current row is non-empty and the
  estimate with that item added exceeds the container width times 1.15; at the end the
  current row, unless it is empty, is the last row.
\<close>

fun greedy_rows_in ::
  "arith \<Rightarrow> real \<Rightarrow> real \<Rightarrow> real \<Rightarrow> JustifiedItem list \<Rightarrow> JustifiedItem list
     \<Rightarrow> JustifiedItem list list" where
  "greedy_rows_in ops containerWidth gap baseRowHeight row [] = (if row = [] then [] else [row])"
| "greedy_rows_in ops containerWidth gap baseRowHeight row (it # rest) =
     (if row \<noteq> [] \<and>
         estimate_in ops baseRowHeight gap row it > fmul ops containerWidth (lit ops 1.15)
      then row # greedy_rows_in ops containerWidth gap baseRowHeight [it] rest
      else greedy_rows_in ops containerWidth gap baseRowHeight (row @ [it]) rest)"

text \<open>The open row of the loop as a list of rows: none when it is empty.\<close>

definition open_rows :: "loop_state \<Rightarrow> JustifiedItem list list" where
  "open_rows st = (if currentRow st = [] then [] else [currentRow st])"

text \<open>
  The row that \<open>pushRow\<close> appends for a non-empty list of items.
\<close>

definition sized_row :: "real \<Rightarrow> real \<Rightarrow> real \<Rightarrow> JustifiedItem list \<Rightarrow> JustifiedRow" where
  "sized_row containerWidth gap baseRowHeight rowItems =
     (let finalHeight = finalHeight_of containerWidth gap baseRowHeight (hd rowItems) rowItems
      in \<lparr>items = map (\<lambda>it. \<lparr>item = it, width = js_mul (Fin (aspectRatio it)) finalHeight,
                               height = finalHeight, globalIndex = item_globalIndex it\<rparr>) rowItems,
          row_height = finalHeight\<rparr>)"


text \<open>The running width of the loop is the running width of the open row.\<close>

definition width_inv_in :: "arith \<Rightarrow> real \<Rightarrow> loop_state \<Rightarrow> bool" where
  "width_inv_in ops b st \<longleftrightarrow> currentWidthAtBase st = running_width ops b (currentRow st)"

text \<open>
  The ratio that \<open>loadImageAspect\<close> resolves with, and the item that belongs into
  slot \<open>i\<close> of the array.
\<close>

definition resolved_ratio :: "image_event \<Rightarrow> real" where
  "resolved_ratio ev = (case loadImageAspect ev of Inr r \<Rightarrow> r | Inl _ \<Rightarrow> 0)"

definition expected_item :: "(nat \<Rightarrow> image_event) \<Rightarrow> ImageItem list \<Rightarrow> nat \<Rightarrow> JustifiedItem" where
  "expected_item load its i = enrich_item (its ! i) i (resolved_ratio (load i))"

text \<open>
  The work a batch has left: the indices not yet taken and the workers that wait.
\<close>

fun is_awaiting :: "worker_pc \<Rightarrow> bool" where
  "is_awaiting (Awaiting i) = True"
| "is_awaiting _ = False"

definition work_left :: "ImageItem list \<Rightarrow> batch_state \<Rightarrow> nat" where
  "work_left its st =
     (length its - nextIndex st) + length (filter is_awaiting (workers st))"

text \<open>What holds of the state of a batch while it starts and after any schedule.\<close>

definition batch_inv :: "(nat \<Rightarrow> image_event) \<Rightarrow> ImageItem list \<Rightarrow> batch_state \<Rightarrow> bool" where
  "batch_inv load its st \<longleftrightarrow>
     length (enriched st) = length its \<and>
     (\<forall>w<length (workers st). thrown (workers st ! w) = None) \<and>
     (\<forall>w<length (workers st). \<forall>i. workers st ! w = Awaiting i \<longrightarrow> i < length its) \<and>
     (\<forall>k<length its. k < nextIndex st \<longrightarrow>
        enriched st ! k = Some (expected_item load its k) \<or>
        (\<exists>w<length (workers st). workers st ! w = Awaiting k)) \<and>
     ((\<exists>w<length (workers st). workers st ! w = Returned) \<longrightarrow> length its \<le> nextIndex st)"

text \<open>
  Inputs for the examples: the paths \<open>a.jpg\<close>, \<open>b.jpg\<close> and \<open>c.jpg\<close> as code
  units, and an item with a given path, aspect ratio and index.
\<close>

definition a_jpg :: jsstring where "a_jpg = [97, 46, 106, 112, 103]"
definition b_jpg :: jsstring where "b_jpg = [98, 46, 106, 112, 103]"
definition c_jpg :: jsstring where "c_jpg = [99, 46, 106, 112, 103]"

definition photo :: "jsstring \<Rightarrow> real \<Rightarrow> nat \<Rightarrow> JustifiedItem" where
  "photo s ar i = \<lparr>src = s, alt = [], category = [], aspectRatio = ar, item_globalIndex = Some i\<rparr>"

text \<open>
  A batch of two images: the first fails to load, the second is 3 wide and 2 high.
\<close>

definition failing_load :: "nat \<Rightarrow> image_event" where
  "failing_load i = (if i = 0 then OnError else OnLoad 3 2)"

definition two_images :: "ImageItem list" where
  "two_images = [\<lparr>src = a_jpg, alt = [], category = []\<rparr>, \<lparr>src = b_jpg, alt = [], category = []\<rparr>]"


section \<open>Degenerate inputs\<close>

text \<open>
  C9: \<open>computeRows\<close> returns the empty list of rows whenever the container width is
  at most 0 or the list of items is empty.
\<close>

theorem computeRows_degenerate:
  "containerWidth \<le> 0 \<or> its = [] \<Longrightarrow> computeRows its containerWidth gap baseRowHeight = []"
  by (auto simp: computeRows_def)

theorem computeRows_degenerate_witness:
  "computeRows [photo a_jpg 1 0] 0 14 200 = [] \<and> computeRows [] 900 14 200 = []"
  using computeRows_degenerate [of 0 "[photo a_jpg 1 0]" 14 200]
    computeRows_degenerate [of 900 "[]" 14 200]
  by simp

section \<open>Every item lands in exactly one row\<close>

lemma items_of_rows_Nil [simp]: "items_of_rows [] = []"
  by (simp add: items_of_rows_def)

lemma items_of_rows_append [simp]:
  "items_of_rows (rs @ rs') = items_of_rows rs @ items_of_rows rs'"
  by (simp add: items_of_rows_def)

lemma items_of_rows_pushRow:
  "items_of_rows (rows (pushRow cw gap b st r)) = items_of_rows (rows st) @ r"
  by (cases r) (simp_all add: pushRow_def Let_def items_of_rows_def row_items_def comp_def)

lemma currentRow_pushRow [simp]: "currentRow (pushRow cw gap b st r) = currentRow st"
  by (cases r) (simp_all add: pushRow_def Let_def)

lemma flat_state_loop_body:
  "flat_state (loop_body cw gap b st it) = flat_state st @ [it]"
  by (simp add: loop_body_def Let_def flat_state_def items_of_rows_pushRow)

lemma flat_state_foldl:
  "flat_state (foldl (loop_body cw gap b) st its) = flat_state st @ its"
  by (induction its arbitrary: st) (simp_all add: flat_state_loop_body)

lemma items_of_rows_computeRows:
  "items_of_rows (computeRows its cw gap b) = (if cw \<le> 0 \<or> its = [] then [] else its)"
proof -
  let ?st = "foldl (loop_body cw gap b) init_state its"
  have flat: "items_of_rows (rows ?st) @ currentRow ?st = its"
    using flat_state_foldl [of cw gap b init_state its]
    by (simp add: flat_state_def init_state_def)
  show ?thesis
  proof (cases "currentRow ?st = []")
    case True
    with flat show ?thesis by (simp add: computeRows_def Let_def)
  next
    case False
    with flat show ?thesis
      by (simp add: computeRows_def Let_def items_of_rows_pushRow)
  qed
qed

text \<open>
  C1: for a container width above 0 and a non-empty list of items, the item sequences of
  the rows of \<open>computeRows\<close>, concatenated in order, are the input list: no item is
  dropped and none is duplicated.
\<close>

theorem computeRows_partition:
  assumes "0 < containerWidth" and "its \<noteq> []"
  shows "items_of_rows (computeRows its containerWidth gap baseRowHeight) = its"
  using assms by (simp add: items_of_rows_computeRows)

theorem computeRows_partition_witness:
  "(0::real) < 900 \<and> [photo a_jpg 1 0, photo b_jpg 1 1, photo c_jpg 1 2] \<noteq> [] \<and>
   items_of_rows (computeRows [photo a_jpg 1 0, photo b_jpg 1 1, photo c_jpg 1 2] 900 10 200)
     = [photo a_jpg 1 0, photo b_jpg 1 1, photo c_jpg 1 2]"
  using computeRows_partition [of 900 "[photo a_jpg 1 0, photo b_jpg 1 1, photo c_jpg 1 2]" 10 200]
  by simp

section \<open>The shape of the rows\<close>

lemma rows_pushRow:
  "ris \<noteq> [] \<Longrightarrow> rows (pushRow cw gap b st ris) = rows st @ [sized_row cw gap b ris]"
  by (cases ris) (simp_all add: pushRow_def sized_row_def Let_def)









lemma row_items_sized_row [simp]: "row_items (sized_row cw gap b ris) = ris"
  by (simp add: sized_row_def row_items_def Let_def comp_def)




lemma photo_sel [simp]: "src (photo s ar i) = s" "aspectRatio (photo s ar i) = ar"
  "item_globalIndex (photo s ar i) = Some i"
  by (simp_all add: photo_def)

lemma filename_of_a_jpg: "filename_of a_jpg = a_jpg"
  by (simp add: filename_of_def split_pop_def split_first_def chr_slash_def chr_hash_def
      chr_question_def a_jpg_def)

lemma hash_a_jpg: "foldl fnv_step 2166136261 a_jpg = 1693710529"
  by (simp add: fnv_step_def a_jpg_def)

lemma seed_a_jpg: "getFilenameSeed a_jpg = 0.10529"
  unfolding getFilenameSeed_def filename_of_a_jpg hash_a_jpg Let_def by simp

section \<open>Row heights\<close>










section \<open>Three square items in a container 900 wide\<close>

lemma getFilenameSeed_bounds: "0 \<le> getFilenameSeed s \<and> getFilenameSeed s < 1"
  by (simp add: getFilenameSeed_def Let_def)

lemma jitter_band:
  "0 \<le> (seed::real) \<Longrightarrow> seed < 1 \<Longrightarrow> t = 200 * (1 + (seed - 0.5) * 0.12) \<Longrightarrow>
   188 \<le> t \<and> t < 212"
  by (simp add: field_simps)

lemma clamp_in_band:
  "188 \<le> (t::real) \<Longrightarrow> t < 212 \<Longrightarrow> max 80 (min t (880 / 3 * 1.2)) = t"
  by (simp add: max_def min_def)

lemma three_in_one_row:
  assumes "aspectRatio a = 1" "aspectRatio b = 1" "aspectRatio c = 1"
  shows "computeRows [a, b, c] 900 10 200 = [sized_row 900 10 200 [a, b, c]]"
  using assms
  by (simp add: computeRows_def loop_body_def init_state_def Let_def rows_pushRow)

lemma jitter_height:
  assumes "aspectRatio a = 1" "aspectRatio b = 1" "aspectRatio c = 1"
    and "t = 200 * (1 + (getFilenameSeed (src a) - 0.5) * 0.12)"
  shows "finalHeight_of 900 10 200 a [a, b, c] = Fin t \<and> 188 \<le> t \<and> t < 212"
proof -
  have t: "188 \<le> t \<and> t < 212"
    using getFilenameSeed_bounds [of "src a"] assms(4) by (intro jitter_band) auto
  have "finalHeight_of 900 10 200 a [a, b, c] = Fin (max 80 (min t (880 / 3 * 1.2)))"
    using assms(1-3) unfolding assms(4)
    by (simp add: finalHeight_of_def Let_def js_div_def)
  with t show ?thesis by (simp only: clamp_in_band)
qed

text \<open>
  C3, as the code has it: three items of aspect ratio 1 with container width 900, gap 10
  and base row height 200 make exactly one row. Its height is the jittered target
  height, 200 times the jitter of the first item's filename seed; each of the three
  widths equals that height, so the widths sum to a value from 564 up to, but not
  including, 636. They do not sum to 880: the exact-fill height only caps the row height.
\<close>

theorem three_square_items:
  assumes "aspectRatio a = 1" "aspectRatio b = 1" "aspectRatio c = 1"
  shows "\<exists>r h. computeRows [a, b, c] 900 10 200 = [r] \<and> row_items r = [a, b, c] \<and>
           h = 200 * (1 + (getFilenameSeed (src a) - 0.5) * 0.12) \<and>
           row_height r = Fin h \<and> map width (items r) = [Fin h, Fin h, Fin h] \<and>
           564 \<le> h + h + h \<and> h + h + h < 636"
proof -
  define h where "h = 200 * (1 + (getFilenameSeed (src a) - 0.5) * 0.12)"
  have fh: "finalHeight_of 900 10 200 a [a, b, c] = Fin h" and band: "188 \<le> h" "h < 212"
    using jitter_height [OF assms h_def] by simp_all
  from band have bounds: "564 \<le> h + h + h" "h + h + h < 636" by simp_all
  let ?r = "sized_row 900 10 200 [a, b, c]"
  have r1: "computeRows [a, b, c] 900 10 200 = [?r]" by (rule three_in_one_row [OF assms])
  have r2: "row_items ?r = [a, b, c]" by simp
  have r3: "row_height ?r = Fin h" using fh by (simp add: sized_row_def Let_def)
  have r4: "map width (items ?r) = [Fin h, Fin h, Fin h]"
    using fh assms by (simp add: sized_row_def Let_def)
  show ?thesis
    by (rule exI [of _ ?r], rule exI [of _ h]) (intro conjI r1 r2 h_def r3 r4 bounds)
qed

theorem three_square_items_witness:
  "aspectRatio (photo a_jpg 1 0) = 1 \<and> aspectRatio (photo b_jpg 1 1) = 1 \<and>
   aspectRatio (photo c_jpg 1 2) = 1 \<and>
   map row_height (computeRows [photo a_jpg 1 0, photo b_jpg 1 1, photo c_jpg 1 2] 900 10 200)
     = [Fin 190.52696]"
proof -
  obtain r h where
      "computeRows [photo a_jpg 1 0, photo b_jpg 1 1, photo c_jpg 1 2] 900 10 200 = [r]"
      "h = 200 * (1 + (getFilenameSeed (src (photo a_jpg 1 0)) - 0.5) * 0.12)"
      "row_height r = Fin h"
    using three_square_items [of "photo a_jpg 1 0" "photo b_jpg 1 1" "photo c_jpg 1 2"]
    by auto
  then show ?thesis by (simp add: seed_a_jpg)
qed

text \<open>
  For the items \<open>a.jpg\<close>, \<open>b.jpg\<close> and \<open>c.jpg\<close> each width is 190.52696, and the
  sum 571.58088 is more than 300 away from 880.
\<close>

theorem three_square_items_sum_counterexample:
  "map (\<lambda>r. map width (items r))
     (computeRows [photo a_jpg 1 0, photo b_jpg 1 1, photo c_jpg 1 2] 900 10 200)
     = [[Fin 190.52696, Fin 190.52696, Fin 190.52696]] \<and>
   \<not> \<bar>(190.52696 + 190.52696 + 190.52696) - (900 - 2 * 10)\<bar> \<le> (1 :: real)"
proof -
  let ?a = "photo a_jpg 1 0" and ?b = "photo b_jpg 1 1" and ?c = "photo c_jpg 1 2"
  have h: "(190.52696 :: real) = 200 * (1 + (getFilenameSeed (src ?a) - 0.5) * 0.12)"
    by (simp add: seed_a_jpg)
  have fh: "finalHeight_of 900 10 200 ?a [?a, ?b, ?c] = Fin 190.52696"
    using jitter_height [of ?a ?b ?c, OF _ _ _ h] by simp
  have "computeRows [?a, ?b, ?c] 900 10 200 = [sized_row 900 10 200 [?a, ?b, ?c]]"
    by (rule three_in_one_row) simp_all
  then have "map (\<lambda>r. map width (items r)) (computeRows [?a, ?b, ?c] 900 10 200)
     = [[Fin 190.52696, Fin 190.52696, Fin 190.52696]]"
    using fh by (simp add: sized_row_def Let_def)
  then show ?thesis by simp
qed

section \<open>When a row is closed\<close>

text \<open>With exact arithmetic the parametrised code is the code above.\<close>

lemma exact_arith_sel [simp]:
  "fadd exact_arith = (+)" "fsub exact_arith = (-)" "fmul exact_arith = (*)"
  "fdiv exact_arith = (/)" "lit exact_arith = (\<lambda>x. x)"
  by (simp_all add: exact_arith_def)






lemma rows_pushRow_in:
  "ris \<noteq> [] \<Longrightarrow>
   \<exists>r. rows (pushRow_in ops cw gap b st ris) = rows st @ [r] \<and> row_items r = ris"
  by (cases ris) (simp_all add: pushRow_in_def Let_def row_items_def comp_def)

lemma currentRow_pushRow_in [simp]:
  "currentRow (pushRow_in ops cw gap b st r) = currentRow st"
  by (cases r) (simp_all add: pushRow_in_def Let_def)

lemma currentWidthAtBase_pushRow_in [simp]:
  "currentWidthAtBase (pushRow_in ops cw gap b st r) = currentWidthAtBase st"
  by (cases r) (simp_all add: pushRow_in_def Let_def)

lemma width_inv_in_init: "width_inv_in ops b init_state"
  by (simp add: width_inv_in_def init_state_def running_width_def)

lemma width_inv_in_loop_body:
  "width_inv_in ops b st \<Longrightarrow> width_inv_in ops b (loop_body_in ops cw gap b st it)"
  by (simp add: width_inv_in_def loop_body_in_def Let_def running_width_def)

lemma width_inv_in_foldl:
  "width_inv_in ops b st \<Longrightarrow> width_inv_in ops b (foldl (loop_body_in ops cw gap b) st its)"
  by (induction its arbitrary: st) (simp_all add: width_inv_in_loop_body)

lemma closing_test_in:
  "width_inv_in ops b st \<Longrightarrow>
   fadd ops (fadd ops (currentWidthAtBase st) (fmul ops (aspectRatio it) b))
     (fmul ops gap (real (length (currentRow st)))) = estimate_in ops b gap (currentRow st) it"
  by (simp add: width_inv_in_def estimate_in_def)

lemma loop_body_in_closes:
  assumes "width_inv_in ops b st"
    and "currentRow st \<noteq> []"
    and "estimate_in ops b gap (currentRow st) it > fmul ops cw (lit ops 1.15)"
  shows "(\<exists>r. rows (loop_body_in ops cw gap b st it) = rows st @ [r] \<and>
              row_items r = currentRow st) \<and>
         currentRow (loop_body_in ops cw gap b st it) = [it]"
  using assms(2,3) rows_pushRow_in [OF assms(2), where ops = ops and cw = cw and gap = gap and b = b and st = st]
  unfolding closing_test_in [OF assms(1), symmetric]
  by (simp add: loop_body_in_def Let_def)

lemma loop_body_in_joins:
  assumes "width_inv_in ops b st"
    and "\<not> (currentRow st \<noteq> [] \<and>
            estimate_in ops b gap (currentRow st) it > fmul ops cw (lit ops 1.15))"
  shows "rows (loop_body_in ops cw gap b st it) = rows st \<and>
         currentRow (loop_body_in ops cw gap b st it) = currentRow st @ [it]"
  using assms(2) unfolding closing_test_in [OF assms(1), symmetric]
  by (auto simp: loop_body_in_def Let_def)

lemma greedy_rows_in_foldl:
  "width_inv_in ops b st \<Longrightarrow>
   map row_items (rows (foldl (loop_body_in ops cw gap b) st its)) @
     open_rows (foldl (loop_body_in ops cw gap b) st its) =
   map row_items (rows st) @ greedy_rows_in ops cw gap b (currentRow st) its"
proof (induction its arbitrary: st)
  case Nil
  show ?case by (simp add: open_rows_def)
next
  case (Cons x xs)
  let ?st' = "loop_body_in ops cw gap b st x"
  let ?end = "foldl (loop_body_in ops cw gap b) ?st' xs"
  have inv': "width_inv_in ops b ?st'"
    by (rule width_inv_in_loop_body [OF Cons.prems])
  have IH: "map row_items (rows ?end) @ open_rows ?end =
      map row_items (rows ?st') @ greedy_rows_in ops cw gap b (currentRow ?st') xs"
    by (rule Cons.IH [OF inv'])
  show ?case
  proof (cases "currentRow st \<noteq> [] \<and>
      estimate_in ops b gap (currentRow st) x > fmul ops cw (lit ops 1.15)")
    case True
    then obtain r where "rows ?st' = rows st @ [r]" "row_items r = currentRow st"
        "currentRow ?st' = [x]"
      using loop_body_in_closes [OF Cons.prems, where gap = gap and it = x and cw = cw] by blast
    moreover from True have "greedy_rows_in ops cw gap b (currentRow st) (x # xs) =
        currentRow st # greedy_rows_in ops cw gap b [x] xs"
      by simp
    ultimately show ?thesis using IH by simp
  next
    case False
    then have "rows ?st' = rows st" "currentRow ?st' = currentRow st @ [x]"
      using loop_body_in_joins [OF Cons.prems, where gap = gap and it = x and cw = cw] by blast+
    moreover from False have "greedy_rows_in ops cw gap b (currentRow st) (x # xs) =
        greedy_rows_in ops cw gap b (currentRow st @ [x]) xs"
      by auto
    ultimately show ?thesis using IH by simp
  qed
qed

lemma greedy_rows_in_computeRows:
  assumes "0 < cw"
  shows "map row_items (computeRows_in ops its cw gap b) = greedy_rows_in ops cw gap b [] its"
proof (cases "its = []")
  case True
  then show ?thesis by (simp add: computeRows_in_def)
next
  case False
  let ?st = "foldl (loop_body_in ops cw gap b) init_state its"
  have g: "map row_items (rows ?st) @ open_rows ?st = greedy_rows_in ops cw gap b [] its"
    using greedy_rows_in_foldl [OF width_inv_in_init, where b = b and cw = cw and gap = gap
        and its = its and ops = ops]
    by (simp add: init_state_def)
  show ?thesis
  proof (cases "currentRow ?st = []")
    case True
    with g assms False show ?thesis by (simp add: computeRows_in_def Let_def open_rows_def)
  next
    case nonempty: False
    obtain r where "rows (pushRow_in ops cw gap b ?st (currentRow ?st)) = rows ?st @ [r]"
        "row_items r = currentRow ?st"
      using rows_pushRow_in [OF nonempty] by blast
    with g assms False nonempty show ?thesis
      by (simp add: computeRows_in_def Let_def open_rows_def)
  qed
qed

lemma greedy_rows_in_nonempty:
  "r \<in> set (greedy_rows_in ops cw gap b row its) \<Longrightarrow> r \<noteq> []"
  by (induction its arbitrary: row) (auto split: if_splits)

lemma rows_in_nonempty:
  assumes "r \<in> set (computeRows_in ops its cw gap b)"
  shows "items r \<noteq> []"
proof (cases "0 < cw")
  case False
  with assms show ?thesis by (simp add: computeRows_in_def)
next
  case True
  from assms have "row_items r \<in> set (map row_items (computeRows_in ops its cw gap b))"
    by simp
  then have "row_items r \<in> set (greedy_rows_in ops cw gap b [] its)"
    by (simp only: greedy_rows_in_computeRows [OF True])
  then have "row_items r \<noteq> []" by (rule greedy_rows_in_nonempty)
  then show ?thesis by (auto simp: row_items_def)
qed

text \<open>
  C6: whatever the arithmetic, in a state that the loop reaches, the step for the next
  item closes the open row and starts a new one with that item exactly when the open row
  is non-empty and the estimate with the item added (the running width of the row, the
  width of the item at base height, and one gap per item already in the row) exceeds the
  container width times 1.15, all computed as the loop computes them; otherwise the item
  joins the open row and no row is closed. So the rows of the result are the rows that
  this rule describes (none for a container of width 0 or less, where the loop does not
  run), and every row of the result has at least one item.
\<close>

theorem row_closing_rule:
  assumes "its = pre @ it # post"
    and "st = foldl (loop_body_in ops containerWidth gap baseRowHeight) init_state pre"
    and "st' = loop_body_in ops containerWidth gap baseRowHeight st it"
  shows "(if currentRow st \<noteq> [] \<and>
             estimate_in ops baseRowHeight gap (currentRow st) it
               > fmul ops containerWidth (lit ops 1.15)
          then (\<exists>r. rows st' = rows st @ [r] \<and> row_items r = currentRow st) \<and>
               currentRow st' = [it]
          else rows st' = rows st \<and> currentRow st' = currentRow st @ [it]) \<and>
         map row_items (computeRows_in ops its containerWidth gap baseRowHeight) =
           (if containerWidth \<le> 0 then []
            else greedy_rows_in ops containerWidth gap baseRowHeight [] its) \<and>
         (\<forall>r \<in> set (computeRows_in ops its containerWidth gap baseRowHeight). items r \<noteq> [])"
proof -
  have inv: "width_inv_in ops baseRowHeight st"
    unfolding assms(2) by (rule width_inv_in_foldl [OF width_inv_in_init])
  have step: "if currentRow st \<noteq> [] \<and>
             estimate_in ops baseRowHeight gap (currentRow st) it
               > fmul ops containerWidth (lit ops 1.15)
          then (\<exists>r. rows st' = rows st @ [r] \<and> row_items r = currentRow st) \<and>
               currentRow st' = [it]
          else rows st' = rows st \<and> currentRow st' = currentRow st @ [it]"
  proof (cases "currentRow st \<noteq> [] \<and>
             estimate_in ops baseRowHeight gap (currentRow st) it
               > fmul ops containerWidth (lit ops 1.15)")
    case True
    with loop_body_in_closes [OF inv, where gap = gap and it = it and cw = containerWidth] show ?thesis
      unfolding assms(3) by simp
  next
    case False
    with loop_body_in_joins [OF inv, where gap = gap and it = it and cw = containerWidth] show ?thesis
      unfolding assms(3) by simp
  qed
  have greedy: "map row_items (computeRows_in ops its containerWidth gap baseRowHeight) =
           (if containerWidth \<le> 0 then []
            else greedy_rows_in ops containerWidth gap baseRowHeight [] its)"
  proof (cases "containerWidth \<le> 0")
    case True
    then show ?thesis by (simp add: computeRows_in_def)
  next
    case False
    then have "0 < containerWidth" by simp
    from greedy_rows_in_computeRows [OF this] False show ?thesis by simp
  qed
  have "\<forall>r \<in> set (computeRows_in ops its containerWidth gap baseRowHeight). items r \<noteq> []"
    by (simp add: rows_in_nonempty)
  with step greedy show ?thesis by (intro conjI)
qed

text \<open>
  Rounding as the doubles do it, for a number whose binade is known, and the numbers of
  the example below.
\<close>

lemma round_double_binade:
  assumes "2 ^ e \<le> \<bar>x\<bar>" and "\<bar>x\<bar> < 2 ^ (e + 1)"
  shows "round_double x = of_int (round_half_even (x * 2 ^ 52 / 2 ^ e)) * 2 ^ e / 2 ^ 52"
proof -
  have pos: "0 < \<bar>x\<bar>" using assms(1) by (smt (verit) zero_less_power)
  have "\<lfloor>log 2 \<bar>x\<bar>\<rfloor> = int e"
    using assms pos by (simp add: floor_log_eq_powr_iff powr_realpow powr_add)
  then have e: "max \<lfloor>log 2 \<bar>x\<bar>\<rfloor> (- 1022) = int e" by simp
  have q: "2 powr (of_int (int e) - 52) = (2::real) ^ e / 2 ^ 52"
    by (simp add: powr_diff powr_realpow)
  from pos have "x \<noteq> 0" by auto
  then have "round_double x =
      of_int (round_half_even (x / (2 ^ e / 2 ^ 52))) * (2 ^ e / 2 ^ 52)"
    unfolding round_double_def Let_def e q by (simp only: if_False)
  then show ?thesis by simp
qed

lemma rd_200: "round_double 200 = 200"
  using round_double_binade [of 7 200] by (simp add: round_half_even_def)

lemma rd_400: "round_double 400 = 400"
  using round_double_binade [of 8 400] by (simp add: round_half_even_def)

lemma rd_14: "round_double 14 = 14"
  using round_double_binade [of 3 14] by (simp add: round_half_even_def)

lemma rd_414: "round_double 414 = 414"
  using round_double_binade [of 8 414] by (simp add: round_half_even_def)

lemma rd_lit_115: "round_double 1.15 = 5179139571476070 / 2 ^ 52"
  using round_double_binade [of 0 "1.15"] by (simp add: round_half_even_def)

lemma rd_threshold: "round_double (360 * (5179139571476070 / 2 ^ 52)) = 7283165022388223 / 2 ^ 44"
  using round_double_binade [of 8 "360 * (5179139571476070 / 2 ^ 52)"]
  by (simp add: round_half_even_def)

lemma double_arith_sel:
  "fadd double_arith x y = round_double (x + y)" "fsub double_arith x y = round_double (x - y)"
  "fmul double_arith x y = round_double (x * y)" "fdiv double_arith x y = round_double (x / y)"
  "lit double_arith = round_double"
  by (simp_all add: double_arith_def)

lemma rd_0: "round_double 0 = 0"
  by (simp add: round_double_def)

lemma tie_threshold: "fmul double_arith 360 (lit double_arith 1.15) = 7283165022388223 / 2 ^ 44"
  by (simp only: double_arith_sel rd_lit_115 rd_threshold)

lemma tie_estimate:
  "estimate_in double_arith 200 14 [photo a_jpg 1 0] (photo b_jpg 1 1) = 414"
  by (simp add: estimate_in_def running_width_def double_arith_sel rd_0 rd_200 rd_400 rd_14 rd_414)

lemma tie_greedy_double:
  "greedy_rows_in double_arith 360 14 200 [] [photo a_jpg 1 0, photo b_jpg 1 1] =
     [[photo a_jpg 1 0], [photo b_jpg 1 1]]"
proof -
  have "(7283165022388223 / 2 ^ 44 :: real) < 414" by simp
  then show ?thesis
    unfolding greedy_rows_in.simps tie_threshold
    by (simp add: tie_estimate del: One_nat_def)
qed

lemma tie_exact_one_row:
  "map row_items (computeRows [photo a_jpg 1 0, photo b_jpg 1 1] 360 14 200) =
     [[photo a_jpg 1 0, photo b_jpg 1 1]]"
  by (simp add: computeRows_def loop_body_def init_state_def Let_def rows_pushRow)

text \<open>
  Two items of aspect ratio 1 in a container 360 wide, with gap 14 and base height 200:
  the estimate with the second item is 414, and the threshold in doubles is
  413.99999999999994, so the row is closed and each item gets a row of its own. In exact
  arithmetic the two are equal and the items share one row.
\<close>

theorem row_closing_rule_witness:
  "map row_items (computeRows_in double_arith [photo a_jpg 1 0, photo b_jpg 1 1] 360 14 200) =
     [[photo a_jpg 1 0], [photo b_jpg 1 1]] \<and>
   list_all (\<lambda>r. items r \<noteq> [])
     (computeRows_in double_arith [photo a_jpg 1 0, photo b_jpg 1 1] 360 14 200) \<and>
   currentRow (loop_body_in double_arith 360 14 200
      (foldl (loop_body_in double_arith 360 14 200) init_state [photo a_jpg 1 0])
      (photo b_jpg 1 1))
     = [photo b_jpg 1 1]"
proof -
  let ?a = "photo a_jpg 1 0" and ?b = "photo b_jpg 1 1"
  let ?st = "foldl (loop_body_in double_arith 360 14 200) init_state [?a]"
  have cur: "currentRow ?st = [?a]"
    by (simp add: loop_body_in_def init_state_def Let_def)
  have lt: "(7283165022388223 / 2 ^ 44 :: real) < 414" by simp
  have "[?a, ?b] = [?a] @ ?b # []" by simp
  then show ?thesis
    using row_closing_rule [OF _ refl refl, of "[?a, ?b]" "[?a]" ?b "[]" double_arith 360 14 200] lt
    unfolding cur tie_threshold tie_estimate tie_greedy_double
    by (simp add: list_all_iff del: One_nat_def)
qed

section \<open>Determinism\<close>





section \<open>Aspect-ratio resolution never fails\<close>

lemma loadImageAspect_resolves: "loadImageAspect ev = Inr (resolved_ratio ev)"
  by (simp add: resolved_ratio_def loadImageAspect_def split: image_event.splits)

lemma loop_head_take:
  "nextIndex st < length its \<Longrightarrow>
   loop_head its st = (st\<lparr>nextIndex := nextIndex st + 1\<rparr>, Awaiting (nextIndex st))"
  by (simp add: loop_head_def Let_def)

lemma loop_head_leave:
  "length its \<le> nextIndex st \<Longrightarrow>
   loop_head its st = (st\<lparr>nextIndex := nextIndex st + 1\<rparr>, Returned)"
  by (simp add: loop_head_def Let_def)

lemma spawn_take:
  "nextIndex st < length its \<Longrightarrow>
   spawn_worker its st =
     st\<lparr>nextIndex := nextIndex st + 1, workers := workers st @ [Awaiting (nextIndex st)]\<rparr>"
  by (simp add: spawn_worker_def loop_head_take)

lemma spawn_leave:
  "length its \<le> nextIndex st \<Longrightarrow>
   spawn_worker its st =
     st\<lparr>nextIndex := nextIndex st + 1, workers := workers st @ [Returned]\<rparr>"
  by (simp add: spawn_worker_def loop_head_leave)

lemma step_out_of_range: "length (workers st) \<le> w \<Longrightarrow> worker_step load its st w = st"
  by (simp add: worker_step_def)

lemma step_take:
  "w < length (workers st) \<Longrightarrow> workers st ! w = Awaiting i \<Longrightarrow> nextIndex st < length its \<Longrightarrow>
   worker_step load its st w =
     st\<lparr>nextIndex := nextIndex st + 1,
        enriched := (enriched st)[i := Some (expected_item load its i)],
        workers := (workers st)[w := Awaiting (nextIndex st)]\<rparr>"
  by (simp add: worker_step_def loadImageAspect_resolves expected_item_def loop_head_take)

lemma step_leave:
  "w < length (workers st) \<Longrightarrow> workers st ! w = Awaiting i \<Longrightarrow> length its \<le> nextIndex st \<Longrightarrow>
   worker_step load its st w =
     st\<lparr>nextIndex := nextIndex st + 1,
        enriched := (enriched st)[i := Some (expected_item load its i)],
        workers := (workers st)[w := Returned]\<rparr>"
  by (simp add: worker_step_def loadImageAspect_resolves expected_item_def loop_head_leave)

lemma step_returned:
  "w < length (workers st) \<Longrightarrow> workers st ! w = Returned \<Longrightarrow> worker_step load its st w = st"
  by (simp add: worker_step_def)

lemma step_thrown:
  "w < length (workers st) \<Longrightarrow> workers st ! w = Thrown err \<Longrightarrow> worker_step load its st w = st"
  by (simp add: worker_step_def)

lemma batch_inv_spawn:
  assumes inv: "batch_inv load its st"
  shows "batch_inv load its (spawn_worker its st)"
proof (cases "nextIndex st < length its")
  case True
  let ?st' = "st\<lparr>nextIndex := nextIndex st + 1, workers := workers st @ [Awaiting (nextIndex st)]\<rparr>"
  have "batch_inv load its ?st'"
    unfolding batch_inv_def
  proof (intro conjI allI impI)
    fix k assume k: "k < length its" "k < nextIndex ?st'"
    show "enriched ?st' ! k = Some (expected_item load its k) \<or>
          (\<exists>v<length (workers ?st'). workers ?st' ! v = Awaiting k)"
    proof (cases "k = nextIndex st")
      case True
      then show ?thesis by (auto intro!: exI [of _ "length (workers st)"])
    next
      case False
      with k have "k < nextIndex st" by simp
      with inv k(1) have "enriched st ! k = Some (expected_item load its k) \<or>
          (\<exists>v<length (workers st). workers st ! v = Awaiting k)"
        by (simp add: batch_inv_def)
      then show ?thesis
      proof
        assume "enriched st ! k = Some (expected_item load its k)"
        then show ?thesis by simp
      next
        assume "\<exists>v<length (workers st). workers st ! v = Awaiting k"
        then obtain v where v: "v < length (workers st)" "workers st ! v = Awaiting k" by blast
        then show ?thesis by (auto intro!: exI [of _ v] simp: nth_append)
      qed
    qed
  qed (use inv True in \<open>auto simp: batch_inv_def nth_append split: if_splits\<close>)
  with True show ?thesis by (simp add: spawn_take)
next
  case False
  then have ge: "length its \<le> nextIndex st" by simp
  let ?st' = "st\<lparr>nextIndex := nextIndex st + 1, workers := workers st @ [Returned]\<rparr>"
  have "batch_inv load its ?st'"
    unfolding batch_inv_def
  proof (intro conjI allI impI)
    fix k assume k: "k < length its" "k < nextIndex ?st'"
    from k ge have "k < nextIndex st" by simp
    with inv k(1) have "enriched st ! k = Some (expected_item load its k) \<or>
        (\<exists>v<length (workers st). workers st ! v = Awaiting k)"
      by (simp add: batch_inv_def)
    then show "enriched ?st' ! k = Some (expected_item load its k) \<or>
          (\<exists>v<length (workers ?st'). workers ?st' ! v = Awaiting k)"
    proof
      assume "enriched st ! k = Some (expected_item load its k)"
      then show ?thesis by simp
    next
      assume "\<exists>v<length (workers st). workers st ! v = Awaiting k"
      then obtain v where v: "v < length (workers st)" "workers st ! v = Awaiting k" by blast
      then show ?thesis by (auto intro!: exI [of _ v] simp: nth_append)
    qed
  qed (use inv ge in \<open>auto simp: batch_inv_def nth_append split: if_splits\<close>)
  with ge show ?thesis by (simp add: spawn_leave)
qed

lemma batch_inv_step:
  assumes inv: "batch_inv load its st"
  shows "batch_inv load its (worker_step load its st w)"
proof (cases "w < length (workers st)")
  case False
  with inv show ?thesis by (simp add: step_out_of_range)
next
  case w: True
  show ?thesis
  proof (cases "workers st ! w")
    case (Awaiting i)
    from inv w Awaiting have i: "i < length its" by (auto simp: batch_inv_def)
    have slots: "enriched st' ! k = Some (expected_item load its k) \<or>
          (\<exists>v<length (workers st'). workers st' ! v = Awaiting k)"
      if st': "enriched st' = (enriched st)[i := Some (expected_item load its i)]"
          "workers st' = (workers st)[w := pc]"
        and k: "k < length its" "k < nextIndex st \<or> pc = Awaiting k"
      for st' :: batch_state and pc k
    proof (cases "k = i")
      case True
      with inv i st' show ?thesis by (simp add: batch_inv_def)
    next
      case False
      show ?thesis
      proof (cases "pc = Awaiting k")
        case True
        with st' w show ?thesis by (auto intro!: exI [of _ w])
      next
        case notpc: False
        with k have "k < nextIndex st" by simp
        with inv k have "enriched st ! k = Some (expected_item load its k) \<or>
              (\<exists>v<length (workers st). workers st ! v = Awaiting k)"
          by (simp add: batch_inv_def)
        then show ?thesis
        proof
          assume "enriched st ! k = Some (expected_item load its k)"
          with False st' show ?thesis by simp
        next
          assume "\<exists>v<length (workers st). workers st ! v = Awaiting k"
          then obtain v where v: "v < length (workers st)" "workers st ! v = Awaiting k" by blast
          with Awaiting False have "v \<noteq> w" by auto
          with v st' show ?thesis by (auto intro!: exI [of _ v])
        qed
      qed
    qed
    show ?thesis
    proof (cases "nextIndex st < length its")
      case True
      let ?st' = "st\<lparr>nextIndex := nextIndex st + 1,
          enriched := (enriched st)[i := Some (expected_item load its i)],
          workers := (workers st)[w := Awaiting (nextIndex st)]\<rparr>"
      have "batch_inv load its ?st'"
        unfolding batch_inv_def
      proof (intro conjI allI impI)
        fix k assume k: "k < length its" "k < nextIndex ?st'"
        then have "k < nextIndex st \<or> Awaiting (nextIndex st) = Awaiting k" by auto
        with k(1) show "enriched ?st' ! k = Some (expected_item load its k) \<or>
          (\<exists>v<length (workers ?st'). workers ?st' ! v = Awaiting k)"
          by (intro slots) auto
      qed (use inv w True Awaiting in \<open>auto simp: batch_inv_def nth_list_update split: if_splits\<close>)
      with w Awaiting True show ?thesis by (simp add: step_take)
    next
      case False
      then have ge: "length its \<le> nextIndex st" by simp
      let ?st' = "st\<lparr>nextIndex := nextIndex st + 1,
          enriched := (enriched st)[i := Some (expected_item load its i)],
          workers := (workers st)[w := Returned]\<rparr>"
      have "batch_inv load its ?st'"
        unfolding batch_inv_def
      proof (intro conjI allI impI)
        fix k assume k: "k < length its" "k < nextIndex ?st'"
        with ge have "k < nextIndex st \<or> Returned = Awaiting k" by auto
        with k(1) show "enriched ?st' ! k = Some (expected_item load its k) \<or>
          (\<exists>v<length (workers ?st'). workers ?st' ! v = Awaiting k)"
          by (intro slots) auto
      qed (use inv w ge Awaiting in \<open>auto simp: batch_inv_def nth_list_update split: if_splits\<close>)
      with w Awaiting ge show ?thesis by (simp add: step_leave)
    qed
  next
    case Returned
    with inv w show ?thesis by (simp add: step_returned)
  next
    case (Thrown err)
    with inv w show ?thesis by (simp add: step_thrown)
  qed
qed

lemma batch_inv_run:
  "batch_inv load its st \<Longrightarrow> batch_inv load its (run_schedule load its sched st)"
  unfolding run_schedule_def
  by (induction sched arbitrary: st) (simp_all add: batch_inv_step)

lemma batch_inv_spawn_all:
  "batch_inv load its st \<Longrightarrow> batch_inv load its (foldl (\<lambda>st c. spawn_worker its st) st cs)"
  by (induction cs arbitrary: st) (simp_all add: batch_inv_spawn)

lemma batch_inv_start: "batch_inv load its (start_batch its)"
  unfolding start_batch_def
  by (rule batch_inv_spawn_all) (simp add: batch_inv_def)

lemma length_workers_spawn: "length (workers (spawn_worker its st)) = length (workers st) + 1"
  by (simp add: spawn_worker_def loop_head_def Let_def)

lemma length_workers_spawn_all:
  "length (workers (foldl (\<lambda>st c. spawn_worker its st) st cs)) = length (workers st) + length cs"
  by (induction cs arbitrary: st) (simp_all add: length_workers_spawn)

lemma length_workers_start: "length (workers (start_batch its)) = concurrency"
  by (simp add: start_batch_def length_workers_spawn_all)

lemma length_workers_step: "length (workers (worker_step load its st w)) = length (workers st)"
  by (simp add: worker_step_def loop_head_def Let_def split: worker_pc.splits sum.splits)

lemma length_workers_run:
  "length (workers (run_schedule load its sched st)) = length (workers st)"
  unfolding run_schedule_def
  by (induction sched arbitrary: st) (simp_all add: length_workers_step)


lemma concurrency_pos: "0 < concurrency"
  by (simp add: concurrency_def)

lemma map_filter_thrown_Nil:
  "(\<forall>w<length ws. thrown (ws ! w) = None) \<Longrightarrow> List.map_filter thrown ws = []"
proof (induction ws)
  case Nil
  show ?case by simp
next
  case (Cons pc ws)
  from Cons.prems have "thrown pc = None" by (auto dest: spec [of _ 0])
  moreover from Cons.prems have "\<forall>w<length ws. thrown (ws ! w) = None"
    by (auto dest: spec [of _ "Suc w" for w])
  ultimately show ?case using Cons.IH by simp
qed

lemma batch_inv_outcome:
  assumes inv: "batch_inv load its st" and some: "0 < length (workers st)"
  shows "batch_outcome st = None \<or>
         batch_outcome st = Some (Inr (map (\<lambda>i. Some (expected_item load its i)) [0..<length its]))"
proof (cases "list_all (\<lambda>pc. pc = Returned) (workers st)")
  case False
  with inv show ?thesis
    by (simp add: batch_outcome_def batch_inv_def map_filter_thrown_Nil)
next
  case True
  from inv have len: "length (enriched st) = length its"
    by (simp add: batch_inv_def)
  from True have all: "\<forall>w<length (workers st). workers st ! w = Returned"
    by (simp add: list_all_length)
  with some have "\<exists>w<length (workers st). workers st ! w = Returned" by blast
  with inv have taken: "length its \<le> nextIndex st" by (simp add: batch_inv_def)
  have "enriched st ! k = Some (expected_item load its k)" if "k < length its" for k
  proof -
    from that taken have "k < nextIndex st" by simp
    with inv that have "enriched st ! k = Some (expected_item load its k) \<or>
        (\<exists>w<length (workers st). workers st ! w = Awaiting k)"
      by (simp add: batch_inv_def)
    with all show ?thesis by auto
  qed
  with len have "enriched st = map (\<lambda>i. Some (expected_item load its i)) [0..<length its]"
    by (intro nth_equalityI) simp_all
  with True inv show ?thesis
    by (simp add: batch_outcome_def batch_inv_def map_filter_thrown_Nil)
qed

lemma awaiting_update:
  "w < length ws \<Longrightarrow> is_awaiting (ws ! w) \<Longrightarrow>
   length (filter is_awaiting (ws[w := pc])) + 1 =
   length (filter is_awaiting ws) + (if is_awaiting pc then 1 else 0)"
proof (induction ws arbitrary: w)
  case Nil
  then show ?case by simp
next
  case (Cons x ws)
  then show ?case by (cases w) auto
qed

lemma pending_worker:
  assumes "batch_outcome st = None"
  shows "\<exists>w<length (workers st). \<exists>i. workers st ! w = Awaiting i"
proof -
  from assms have nothrow: "List.map_filter thrown (workers st) = []"
    by (auto simp: batch_outcome_def split: list.splits if_splits)
  from assms have "\<not> list_all (\<lambda>pc. pc = Returned) (workers st)"
    by (auto simp: batch_outcome_def split: list.splits if_splits)
  then obtain w where w: "w < length (workers st)" "workers st ! w \<noteq> Returned"
    by (auto simp: list_all_length)
  have "thrown (workers st ! w) = None"
  proof (rule ccontr)
    assume "thrown (workers st ! w) \<noteq> None"
    then obtain err where "thrown (workers st ! w) = Some err" by auto
    moreover from w have "workers st ! w \<in> set (workers st)" by simp
    ultimately have "err \<in> set (List.map_filter thrown (workers st))"
      by (force simp: List.map_filter_def)
    with nothrow show False by simp
  qed
  with w show ?thesis by (cases "workers st ! w") auto
qed

lemma step_progress:
  assumes "w < length (workers st)" and "workers st ! w = Awaiting i"
  shows "work_left its (worker_step load its st w) < work_left its st"
proof (cases "nextIndex st < length its")
  case True
  with assms awaiting_update [of w "workers st" "Awaiting (nextIndex st)"]
  show ?thesis by (simp add: step_take work_left_def)
next
  case False
  with assms awaiting_update [of w "workers st" Returned]
  show ?thesis by (simp add: step_leave work_left_def)
qed

text \<open>
  C8: \<open>loadImageAspect\<close> always resolves and never rejects; when the image fails to
  load, or its natural height is 0, it resolves with the default ratio 1. So, in whatever
  order the images settle, no worker throws and the batch is never rejected: it is
  pending or resolved with an array that holds, for every input item, the item with its
  ratio (the ratio 1 for a failed image, before tweak and clamp). While the batch is
  pending, some worker waits for an image, and its next stretch reduces the work left:
  a failed image does not hold up the other items.
\<close>

theorem resolution_never_fails:
  "(\<exists>r. loadImageAspect ev = Inr r) \<and>
   loadImageAspect OnError = Inr 1 \<and>
   loadImageAspect (OnLoad naturalWidth 0) = Inr 1 \<and>
   (let st = run_schedule load its sched (start_batch its) in
      (batch_outcome st = None \<or>
       batch_outcome st = Some (Inr (map (\<lambda>i. Some (expected_item load its i)) [0..<length its]))) \<and>
      (batch_outcome st = None \<longrightarrow>
         (\<exists>w<concurrency. work_left its (worker_step load its st w) < work_left its st))) \<and>
   (\<forall>i<length its. load i = OnError \<or> (\<exists>n. load i = OnLoad n 0) \<longrightarrow>
      expected_item load its i = enrich_item (its ! i) i 1)"
proof -
  let ?st = "run_schedule load its sched (start_batch its)"
  have inv: "batch_inv load its ?st"
    by (rule batch_inv_run [OF batch_inv_start])
  have len: "length (workers ?st) = concurrency"
    by (simp add: length_workers_run length_workers_start)
  have out: "batch_outcome ?st = None \<or>
       batch_outcome ?st = Some (Inr (map (\<lambda>i. Some (expected_item load its i)) [0..<length its]))"
    using concurrency_pos len by (intro batch_inv_outcome [OF inv]) simp
  have prog: "batch_outcome ?st = None \<longrightarrow>
         (\<exists>w<concurrency. work_left its (worker_step load its ?st w) < work_left its ?st)"
  proof
    assume "batch_outcome ?st = None"
    from pending_worker [OF this] obtain w i where "w < length (workers ?st)"
        "workers ?st ! w = Awaiting i" by blast
    with step_progress [of w ?st i its load] len
    show "\<exists>w<concurrency. work_left its (worker_step load its ?st w) < work_left its ?st"
      by auto
  qed
  have dflt: "\<forall>i<length its. load i = OnError \<or> (\<exists>n. load i = OnLoad n 0) \<longrightarrow>
      expected_item load its i = enrich_item (its ! i) i 1"
    by (auto simp: expected_item_def resolved_ratio_def loadImageAspect_def)
  have load: "(\<exists>r. loadImageAspect ev = Inr r) \<and> loadImageAspect OnError = Inr 1 \<and>
      loadImageAspect (OnLoad naturalWidth 0) = Inr 1"
    by (auto simp: loadImageAspect_def split: image_event.splits)
  from load out prog dflt show ?thesis by (simp add: Let_def)
qed

text \<open>
  The batch of two images, the second of which settles first: after the eight workers
  have been started, two of them wait and six have returned.
\<close>

lemma start_two_images:
  "start_batch two_images =
     \<lparr>nextIndex = 8, enriched = [None, None],
      workers = [Awaiting 0, Awaiting 1, Returned, Returned, Returned, Returned, Returned, Returned]\<rparr>"
proof -
  have "[0..<8] = [0, 1, 2, 3, 4, 5, 6, 7 :: nat]" by code_simp
  then show ?thesis
    by (simp add: start_batch_def concurrency_def two_images_def spawn_worker_def loop_head_def
        Let_def)
qed

lemma run_two_images:
  "batch_outcome (run_schedule failing_load two_images [1, 0] (start_batch two_images)) \<noteq> None"
  unfolding start_two_images
  by (simp add: run_schedule_def worker_step_def loop_head_def Let_def two_images_def
      failing_load_def loadImageAspect_def batch_outcome_def List.map_filter_def)

theorem resolution_never_fails_witness:
  "(\<exists>e. batch_outcome (run_schedule failing_load two_images [1, 0] (start_batch two_images)) =
      Some (Inr [Some e, Some (expected_item failing_load two_images 1)]) \<and>
      src e = a_jpg \<and> aspectRatio e = 0.921058) \<and>
   batch_outcome (run_schedule failing_load two_images [] (start_batch two_images)) = None \<and>
   (\<exists>w<concurrency.
      work_left two_images
        (worker_step failing_load two_images
           (run_schedule failing_load two_images [] (start_batch two_images)) w)
      < work_left two_images (run_schedule failing_load two_images [] (start_batch two_images)))"
proof -
  let ?st = "run_schedule failing_load two_images [1, 0] (start_batch two_images)"
  let ?start = "run_schedule failing_load two_images [] (start_batch two_images)"
  have two: "[0..<length two_images] = [0, 1]"
    by (simp add: two_images_def)
  from resolution_never_fails [of OnError 0 failing_load two_images "[1, 0]"]
  have disj: "batch_outcome ?st = None \<or>
       batch_outcome ?st = Some (Inr (map (\<lambda>i. Some (expected_item failing_load two_images i)) [0..<length two_images]))"
    and dflt: "\<forall>i<length two_images. failing_load i = OnError \<or> (\<exists>n. failing_load i = OnLoad n 0) \<longrightarrow>
      expected_item failing_load two_images i = enrich_item (two_images ! i) i 1"
    by (simp_all add: Let_def)
  from disj run_two_images
  have "batch_outcome ?st = Some (Inr (map (\<lambda>i. Some (expected_item failing_load two_images i)) [0..<length two_images]))"
    by blast
  then have out: "batch_outcome ?st =
      Some (Inr [Some (expected_item failing_load two_images 0), Some (expected_item failing_load two_images 1)])"
    unfolding two by simp
  from dflt have e: "expected_item failing_load two_images 0 = enrich_item (two_images ! 0) 0 1"
    by (simp add: two_images_def failing_load_def)
  have "src (enrich_item (two_images ! 0) 0 1) = a_jpg"
    "aspectRatio (enrich_item (two_images ! 0) 0 1) = 0.921058"
    by (simp_all add: enrich_item_def two_images_def Let_def seed_a_jpg)
  with out e have resolved: "\<exists>e. batch_outcome ?st =
      Some (Inr [Some e, Some (expected_item failing_load two_images 1)]) \<and>
      src e = a_jpg \<and> aspectRatio e = 0.921058"
    by simp
  have pending: "batch_outcome ?start = None"
    unfolding run_schedule_def foldl.simps start_two_images
    by (simp add: batch_outcome_def List.map_filter_def)
  from resolution_never_fails [of OnError 0 failing_load two_images "[]"]
  have "batch_outcome ?start = None \<longrightarrow>
      (\<exists>w<concurrency. work_left two_images (worker_step failing_load two_images ?start w)
          < work_left two_images ?start)"
    by (simp add: Let_def)
  with pending have "\<exists>w<concurrency. work_left two_images (worker_step failing_load two_images ?start w)
          < work_left two_images ?start"
    by blast
  with resolved pending show ?thesis by blast
qed

section \<open>The thumbnail build never upscales\<close>

text \<open>
  C7: for an image whose metadata reports the native width, the resize width of the
  variant for each target width 400, 800 and 1200 is the smaller of the native width and
  the target width, and enlargement is switched off. A native width of 2000 gives the
  widths 400, 800 and 1200; a native width of 300 gives 300 three times.
\<close>

theorem build_never_upscales:
  assumes "0 < nativeWidth"
  shows "map (\<lambda>v. (target_w v, resize_width v)) (build_variants (Some nativeWidth)) =
           [(400, min nativeWidth 400), (800, min nativeWidth 800), (1200, min nativeWidth 1200)] \<and>
         (\<forall>v \<in> set (build_variants (Some nativeWidth)).
            resize_width v = min nativeWidth (target_w v) \<and> resize_width v \<le> nativeWidth \<and>
            withoutEnlargement v)"
  using assms by (simp add: build_variants_def origWidth_of_def widths_def Let_def)

theorem build_never_upscales_witness:
  "(0::nat) < 2000 \<and> (0::nat) < 300 \<and>
   map (\<lambda>v. (target_w v, resize_width v)) (build_variants (Some 2000)) =
     [(400, 400), (800, 800), (1200, 1200)] \<and>
   map (\<lambda>v. (target_w v, resize_width v)) (build_variants (Some 300)) =
     [(400, 300), (800, 300), (1200, 300)]"
  using build_never_upscales [of 2000] build_never_upscales [of 300] by simp

section \<open>The ordered search\<close>

lemma ushr1_small: "n < 2 ^ 32 \<Longrightarrow> ushr1 n = n div 2"
  by (simp add: ushr1_def)

lemma lowerBound_loop_correct:
  assumes "sorted arr" and "length arr < 2 ^ 31"
  shows "lo \<le> hi \<Longrightarrow> hi \<le> length arr \<Longrightarrow>
         (\<forall>i<lo. arr ! i < target) \<Longrightarrow>
         (\<forall>i. hi \<le> i \<and> i < length arr \<longrightarrow> target \<le> arr ! i) \<Longrightarrow>
         \<exists>k. lowerBound_loop arr target lo hi = Some k \<and> k \<le> length arr \<and>
             (\<forall>i<k. arr ! i < target) \<and>
             (\<forall>i. k \<le> i \<and> i < length arr \<longrightarrow> target \<le> arr ! i)"
proof (induction "hi - lo" arbitrary: lo hi rule: less_induct)
  case less
  show ?case
  proof (cases "lo < hi")
    case False
    with less.prems have "lo = hi" by simp
    with less.prems show ?thesis
      by (subst lowerBound_loop.simps) auto
  next
    case True
    define mid where "mid = ushr1 (lo + hi)"
    have "lo + hi < 2 ^ 32" using less.prems assms(2) by simp
    then have mid: "mid = (lo + hi) div 2" by (simp add: mid_def ushr1_small)
    with True have bounds: "lo \<le> mid" "mid < hi" by auto
    then have midlen: "mid < length arr" using less.prems by simp
    show ?thesis
    proof (cases "arr ! mid < target")
      case lt: True
      have below: "\<forall>i<mid + 1. arr ! i < target"
      proof (intro allI impI)
        fix i assume "i < mid + 1"
        then have "i \<le> mid" by simp
        with assms(1) midlen have "arr ! i \<le> arr ! mid"
          by (simp add: sorted_nth_mono)
        with lt show "arr ! i < target" by simp
      qed
      have "\<exists>k. lowerBound_loop arr target (mid + 1) hi = Some k \<and> k \<le> length arr \<and>
             (\<forall>i<k. arr ! i < target) \<and>
             (\<forall>i. k \<le> i \<and> i < length arr \<longrightarrow> target \<le> arr ! i)"
        using less.prems bounds below by (intro less.hyps) auto
      moreover have "lowerBound_loop arr target lo hi = lowerBound_loop arr target (mid + 1) hi"
        using True lt midlen
        by (subst lowerBound_loop.simps) (simp add: mid_def [symmetric] elem_lt_def)
      ultimately show ?thesis by simp
    next
      case ge: False
      have above: "\<forall>i. mid \<le> i \<and> i < length arr \<longrightarrow> target \<le> arr ! i"
      proof (intro allI impI)
        fix i assume "mid \<le> i \<and> i < length arr"
        with assms(1) have "arr ! mid \<le> arr ! i"
          by (simp add: sorted_nth_mono)
        with ge show "target \<le> arr ! i" by simp
      qed
      have "\<exists>k. lowerBound_loop arr target lo mid = Some k \<and> k \<le> length arr \<and>
             (\<forall>i<k. arr ! i < target) \<and>
             (\<forall>i. k \<le> i \<and> i < length arr \<longrightarrow> target \<le> arr ! i)"
        using less.prems bounds above midlen True by (intro less.hyps) auto
      moreover have "lowerBound_loop arr target lo hi = lowerBound_loop arr target lo mid"
        using True ge
        by (subst lowerBound_loop.simps) (simp add: mid_def [symmetric] elem_lt_def)
      ultimately show ?thesis by simp
    qed
  qed
qed

text \<open>
  The offsets of rows with non-negative heights and a non-negative gap are in ascending
  order, as the search needs them.
\<close>

lemma cumulative_loop_ge:
  "\<forall>h \<in> set hs. 0 \<le> h \<Longrightarrow> 0 \<le> gap \<Longrightarrow> \<forall>x \<in> set (cumulative_loop acc hs gap). acc \<le> x"
proof (induction acc hs gap rule: cumulative_loop.induct)
  case (3 acc h h' hs gap)
  then have "\<forall>x \<in> set (cumulative_loop (acc + h + gap) (h' # hs) gap). acc + h + gap \<le> x"
    by simp
  moreover from 3 have "acc \<le> acc + h + gap" by simp
  ultimately show ?case by fastforce
qed simp_all

lemma sorted_cumulative_loop:
  "\<forall>h \<in> set hs. 0 \<le> h \<Longrightarrow> 0 \<le> gap \<Longrightarrow> sorted (cumulative_loop acc hs gap)"
proof (induction acc hs gap rule: cumulative_loop.induct)
  case (3 acc h h' hs gap)
  then have "\<forall>x \<in> set (cumulative_loop (acc + h + gap) (h' # hs) gap). acc + h + gap \<le> x"
    by (intro cumulative_loop_ge) simp_all
  with 3 show ?case by simp
qed simp_all

lemma sorted_cumulative:
  "\<forall>h \<in> set hs. 0 \<le> h \<Longrightarrow> 0 \<le> gap \<Longrightarrow> sorted (cumulative hs gap)"
  using cumulative_loop_ge [of hs gap 0] sorted_cumulative_loop [of hs gap 0]
  by (simp add: cumulative_def)

lemma cumulative_three: "cumulative [260, 260, 260] 14 = [0, 274, 548, 808]"
  by (simp add: cumulative_def)

text \<open>
  C10: for an array sorted in ascending order, \<open>lowerBound\<close> returns the least index
  whose element is at least the target, or the length of the array when there is none.
  The array has fewer than \<open>2 ^ 31\<close> elements, so that the midpoint \<open>(lo + hi) >>> 1\<close>
  is computed without loss.
\<close>

theorem lowerBound_least:
  assumes "sorted arr" and "length arr < 2 ^ 31"
  shows "\<exists>k. lowerBound arr target = Some k \<and> k \<le> length arr \<and>
           (k < length arr \<longrightarrow> target \<le> arr ! k) \<and> (\<forall>i<k. \<not> target \<le> arr ! i)"
proof -
  obtain k where "lowerBound_loop arr target 0 (length arr) = Some k" "k \<le> length arr"
      "\<forall>i<k. arr ! i < target" "\<forall>i. k \<le> i \<and> i < length arr \<longrightarrow> target \<le> arr ! i"
    using lowerBound_loop_correct [OF assms, of 0 "length arr" target] by auto
  then show ?thesis
    by (auto simp: lowerBound_def)
qed

theorem lowerBound_least_witness:
  "sorted (cumulative [260, 260, 260] 14) \<and> length (cumulative [260, 260, 260] 14) < 2 ^ 31 \<and>
   lowerBound (cumulative [260, 260, 260] 14) 300 = Some 2"
proof -
  let ?arr = "[0, 274, 548, 808 :: real]"
  have s: "sorted ?arr" by simp
  have l: "length ?arr < 2 ^ 31" by simp
  obtain k where k: "lowerBound ?arr 300 = Some k" "k \<le> length ?arr"
      "k < length ?arr \<longrightarrow> 300 \<le> ?arr ! k" "\<forall>i<k. \<not> 300 \<le> ?arr ! i"
    using lowerBound_least [OF s l, of 300] by blast
  from k(2) have "k = 0 \<or> k = 1 \<or> k = 2 \<or> k = 3 \<or> k = 4" by auto
  moreover have "k \<noteq> 0" using k(3) by (intro notI) simp
  moreover have "k \<noteq> 1" using k(3) by (intro notI) simp
  moreover have "\<not> 2 < k"
  proof
    assume "2 < k"
    with k(4) have "\<not> 300 \<le> ?arr ! 2" by blast
    then show False by simp
  qed
  ultimately have "k = 2" by auto
  with k(1) s l show ?thesis unfolding cumulative_three by simp
qed

end
